theory Spec2Isabelle
  imports Main "HOL-Library.Sublist"
begin

section \<open>Data model of the wave (pkg/wfc/wave.go)\<close>

text \<open>
  The four compass directions. The Go type is an integer type with four named values;
  \<open>HasNeighbor\<close> and \<open>GetNeighbor\<close> switch over exactly these four.
\<close>

datatype Direction = Up | Down | Left | Right

text \<open>
  A module is only ever handled through a pointer; the type variable \<open>'m\<close> stands for
  module pointers, compared by identity. A slot holds its coordinates and the list of
  module pointers that are still possible.
\<close>

record 'm Slot =
  X :: int
  Y :: int
  Superposition :: "'m list"

text \<open>
  The wave. \<open>PossibilitySpace\<close> is the flat array of slots; a slot pointer is modelled
  as the index of the slot in that array, so \<open>History\<close> is a list of indices.
  \<open>IsPossibleFn\<close> is the pluggable predicate; it receives the candidate module pointer,
  the two slots as they are at the time of the call, and the direction.
\<close>

record 'm Wave =
  Width :: int
  Height :: int
  Input :: "'m list"
  PossibilitySpace :: "'m Slot list"
  History :: "nat list"
  IsPossibleFn :: "'m \<Rightarrow> 'm Slot \<Rightarrow> 'm Slot \<Rightarrow> Direction \<Rightarrow> bool"

text \<open>The single error value of the package, and the ways a call can stop without returning.\<close>

datatype error = ErrNoSolution

datatype stop =
    OutOfFuel | OutOfDraws
  | IndexOutOfRange | SliceBoundsOutOfRange | NilDereference | InvalidArgument | MakeSliceLenOutOfRange

text \<open>
  A call either stops (\<open>Inl\<close>) or returns (\<open>Inr\<close>) the Go \<open>error\<close> value
  (\<open>None\<close> is \<open>nil\<close>), the wave as the call left it, and the rest of the random draws.
\<close>

type_synonym 'm outcome = "stop + (error option \<times> 'm Wave \<times> nat list)"

section \<open>Neighbour arithmetic\<close>

fun HasNeighbor :: "'m Wave \<Rightarrow> 'm Slot \<Rightarrow> Direction \<Rightarrow> bool" where
  "HasNeighbor w s Up = (Y s > 0)"
| "HasNeighbor w s Down = (Y s < Height w - 1)"
| "HasNeighbor w s Left = (X s > 0)"
| "HasNeighbor w s Right = (X s < Width w - 1)"

text \<open>
  \<open>GetSlot\<close> indexes the flat array at \<open>x + y * Width\<close>; Go panics when that index is
  negative or not below the length of the array.
\<close>

definition GetSlot :: "'m Wave \<Rightarrow> int \<Rightarrow> int \<Rightarrow> stop + nat" where
  "GetSlot w x y =
     (let i = x + y * Width w
      in if 0 \<le> i \<and> i < int (length (PossibilitySpace w)) then Inr (nat i)
         else Inl IndexOutOfRange)"

fun GetNeighbor :: "'m Wave \<Rightarrow> 'm Slot \<Rightarrow> Direction \<Rightarrow> stop + nat" where
  "GetNeighbor w s Up = GetSlot w (X s) (Y s - 1)"
| "GetNeighbor w s Down = GetSlot w (X s) (Y s + 1)"
| "GetNeighbor w s Left = GetSlot w (X s - 1) (Y s)"
| "GetNeighbor w s Right = GetSlot w (X s + 1) (Y s)"

section \<open>Filtering a neighbour's candidates\<close>

text \<open>
  The loop of \<open>GetPossibleModules\<close>: \<open>res\<close> starts empty and every module of
  \<open>b\<close>'s superposition that passes the predicate is appended to it.
\<close>

fun GetPossibleModules_loop ::
  "'m Wave \<Rightarrow> 'm Slot \<Rightarrow> 'm Slot \<Rightarrow> Direction \<Rightarrow> 'm list \<Rightarrow> 'm list \<Rightarrow> 'm list" where
  "GetPossibleModules_loop w a b d [] res = res"
| "GetPossibleModules_loop w a b d (m # ms) res =
     GetPossibleModules_loop w a b d ms (if IsPossibleFn w m a b d then res @ [m] else res)"

definition GetPossibleModules :: "'m Wave \<Rightarrow> 'm Slot \<Rightarrow> 'm Slot \<Rightarrow> Direction \<Rightarrow> 'm list" where
  "GetPossibleModules w a b d = GetPossibleModules_loop w a b d (Superposition b) []"

section \<open>Random source\<close>

text \<open>
  The package draws from the global generator of math/rand. The generator is modelled
  by the list of raw values it is going to produce; \<open>rand.Intn(n)\<close> takes the next raw
  value and reduces it into \<open>[0, n)\<close>, and panics for \<open>n \<le> 0\<close>. A call that needs a
  draw when the list is used up stops with \<open>OutOfDraws\<close>.
\<close>

definition Intn :: "nat \<Rightarrow> nat list \<Rightarrow> stop + (nat \<times> nat list)" where
  "Intn n rnd =
     (if n = 0 then Inl InvalidArgument
      else case rnd of [] \<Rightarrow> Inl OutOfDraws | r # rs \<Rightarrow> Inr (r mod n, rs))"

text \<open>
  Modelled from the spec: the method \<open>Slot.Collapse\<close>, called by
  \<open>CollapseRandomSlot\<close>, is not among the sources. The specification (4.2) says it
  picks one candidate at random from the current superposition and replaces the
  superposition with the single-element list containing it.
\<close>

definition Slot_Collapse :: "'m Slot \<Rightarrow> nat list \<Rightarrow> stop + ('m Slot \<times> nat list)" where
  "Slot_Collapse s rnd =
     (case Intn (length (Superposition s)) rnd of
        Inl e \<Rightarrow> Inl e
      | Inr (k, rnd') \<Rightarrow> Inr (s\<lparr>Superposition := [Superposition s ! k]\<rparr>, rnd'))"

section \<open>Queries on the wave\<close>

fun HasVisited_loop :: "nat list \<Rightarrow> nat \<Rightarrow> bool" where
  "HasVisited_loop [] s = False"
| "HasVisited_loop (h # hs) s = (if h = s then True else HasVisited_loop hs s)"

definition HasVisited :: "'m Wave \<Rightarrow> nat \<Rightarrow> bool" where
  "HasVisited w s = HasVisited_loop (History w) s"

fun IsCollapsed_loop :: "'m Slot list \<Rightarrow> bool" where
  "IsCollapsed_loop [] = True"
| "IsCollapsed_loop (s # ss) =
     (if length (Superposition s) > 1 then False else IsCollapsed_loop ss)"

definition IsCollapsed :: "'m Wave \<Rightarrow> bool" where
  "IsCollapsed w = IsCollapsed_loop (PossibilitySpace w)"

text \<open>Reading through a slot pointer; a pointer that is not a slot of the grid panics.\<close>

definition deref :: "'m Wave \<Rightarrow> nat \<Rightarrow> stop + 'm Slot" where
  "deref w p =
     (if p < length (PossibilitySpace w) then Inr (PossibilitySpace w ! p)
      else Inl NilDereference)"

section \<open>Collapsing a random slot\<close>

fun count_collapsed :: "'m Slot list \<Rightarrow> nat \<Rightarrow> nat" where
  "count_collapsed [] num_collapsed = num_collapsed"
| "count_collapsed (s # ss) num_collapsed =
     count_collapsed ss
       (if length (Superposition s) \<le> 1 then num_collapsed + 1 else num_collapsed)"

text \<open>
  The rejection loop: draw an index with \<open>rand.Intn(len(PossibilitySpace))\<close>, try again
  when that slot has at most one candidate, otherwise collapse it and return it.
  The recursion is on the list of draws, one draw for each round.
\<close>

fun CollapseRandomSlot_loop :: "'m Wave \<Rightarrow> nat list \<Rightarrow> stop + (nat option \<times> 'm Wave \<times> nat list)" where
  "CollapseRandomSlot_loop w [] =
     (if length (PossibilitySpace w) = 0 then Inl InvalidArgument else Inl OutOfDraws)"
| "CollapseRandomSlot_loop w (r # rs) =
     (if length (PossibilitySpace w) = 0 then Inl InvalidArgument
      else
        let i = r mod length (PossibilitySpace w);
            slot = PossibilitySpace w ! i
        in if length (Superposition slot) \<le> 1 then CollapseRandomSlot_loop w rs
           else (case Slot_Collapse slot rs of
                   Inl e \<Rightarrow> Inl e
                 | Inr (slot', rs') \<Rightarrow>
                     Inr (Some i, w\<lparr>PossibilitySpace := (PossibilitySpace w)[i := slot']\<rparr>, rs')))"

definition CollapseRandomSlot :: "'m Wave \<Rightarrow> nat list \<Rightarrow> stop + (nat option \<times> 'm Wave \<times> nat list)" where
  "CollapseRandomSlot w rnd =
     (if count_collapsed (PossibilitySpace w) 0 = length (PossibilitySpace w)
      then Inr (None, w, rnd)
      else CollapseRandomSlot_loop w rnd)"

section \<open>Recurse\<close>

text \<open>
  The first part of \<open>Recurse\<close> after the test of \<open>IsCollapsed\<close>: with an empty
  history a random slot is collapsed and appended to the history. Were the returned
  pointer \<open>nil\<close>, the first \<open>HasNeighbor(previous, d)\<close> would dereference it.
\<close>

definition Recurse_start :: "'m Wave \<Rightarrow> nat list \<Rightarrow> stop + ('m Wave \<times> nat list)" where
  "Recurse_start w rnd =
     (if length (History w) = 0 then
        (case CollapseRandomSlot w rnd of
           Inl e \<Rightarrow> Inl e
         | Inr (None, w', rnd') \<Rightarrow> Inl NilDereference
         | Inr (Some slot, w', rnd') \<Rightarrow> Inr (w'\<lparr>History := History w' @ [slot]\<rparr>, rnd'))
      else Inr (w, rnd))"

text \<open>
  What one round of the loop over the directions does with direction \<open>d\<close> before it
  recurses: it goes on to the next direction (\<open>Continue\<close>), or it has installed an
  empty candidate list in the neighbour (\<open>Contradiction\<close>), or it has installed a
  shorter, non-empty list in the neighbour \<open>next\<close> and is about to push it (\<open>Descend\<close>).
\<close>

datatype 'm visit = Continue | Contradiction "'m Wave" | Descend nat "'m Wave"

definition Recurse_visit :: "'m Wave \<Rightarrow> nat \<Rightarrow> Direction \<Rightarrow> stop + 'm visit" where
  "Recurse_visit w previous d =
     (case deref w previous of
        Inl e \<Rightarrow> Inl e
      | Inr prev \<Rightarrow>
          if \<not> HasNeighbor w prev d then Inr Continue
          else (case GetNeighbor w prev d of
                  Inl e \<Rightarrow> Inl e
                | Inr next \<Rightarrow>
                    if HasVisited w next then Inr Continue
                    else
                      let nslot = PossibilitySpace w ! next;
                          s = GetPossibleModules w prev nslot d
                      in if length s = length (Superposition nslot) then Inr Continue
                         else
                           let w' = w\<lparr>PossibilitySpace :=
                                      (PossibilitySpace w)[next := nslot\<lparr>Superposition := s\<rparr>]\<rparr>
                           in if length s = 0 then Inr (Contradiction w')
                              else Inr (Descend next w')))"

text \<open>
  \<open>Recurse\<close> and its loop over the directions. \<open>dirs\<close> is the package variable
  \<open>Directions\<close>, which is declared outside the sources at hand. The first numeric
  argument bounds the depth of the recursion: every call of \<open>Recurse\<close> uses one unit,
  and a call with none left stops with \<open>OutOfFuel\<close>. \<open>previous\<close> is read once, before
  the loop.
\<close>

fun Recurse :: "Direction list \<Rightarrow> nat \<Rightarrow> 'm Wave \<Rightarrow> nat list \<Rightarrow> 'm outcome"
  and Recurse_loop ::
    "Direction list \<Rightarrow> nat \<Rightarrow> nat \<Rightarrow> Direction list \<Rightarrow> 'm Wave \<Rightarrow> nat list \<Rightarrow> 'm outcome" where
  "Recurse dirs 0 w rnd = Inl OutOfFuel"
| "Recurse dirs (Suc fuel) w rnd =
     (if IsCollapsed w then Inr (None, w, rnd)
      else (case Recurse_start w rnd of
              Inl e \<Rightarrow> Inl e
            | Inr (w', rnd') \<Rightarrow> Recurse_loop dirs fuel (last (History w')) dirs w' rnd'))"
| "Recurse_loop dirs fuel previous [] w rnd = Inr (None, w, rnd)"
| "Recurse_loop dirs fuel previous (d # ds) w rnd =
     (case Recurse_visit w previous d of
        Inl e \<Rightarrow> Inl e
      | Inr Continue \<Rightarrow> Recurse_loop dirs fuel previous ds w rnd
      | Inr (Contradiction w') \<Rightarrow> Inr (Some ErrNoSolution, w', rnd)
      | Inr (Descend next w') \<Rightarrow>
          (case Recurse dirs fuel (w'\<lparr>History := History w' @ [next]\<rparr>) rnd of
             Inl e \<Rightarrow> Inl e
           | Inr (Some err, w'', rnd'') \<Rightarrow> Inr (Some err, w'', rnd'')
           | Inr (None, w'', rnd'') \<Rightarrow>
               if length (History w'') = 0 then Inl SliceBoundsOutOfRange
               else Recurse_loop dirs fuel previous ds
                      (w''\<lparr>History := butlast (History w'')\<rparr>) rnd''))"

section \<open>Collapse\<close>

function Collapse_loop ::
  "Direction list \<Rightarrow> nat \<Rightarrow> int \<Rightarrow> int \<Rightarrow> 'm Wave \<Rightarrow> nat list \<Rightarrow> 'm outcome" where
  "Collapse_loop dirs fuel i attempts w rnd =
     (if i < attempts then
        (case Recurse dirs fuel w rnd of
           Inl e \<Rightarrow> Inl e
         | Inr (Some err, w', rnd') \<Rightarrow> Inr (Some err, w', rnd')
         | Inr (None, w', rnd') \<Rightarrow>
             Collapse_loop dirs fuel (i + 1) attempts (w'\<lparr>History := []\<rparr>) rnd')
      else Inr (None, w, rnd))"
  by pat_completeness auto
termination
  by (relation "measure (\<lambda>(dirs, fuel, i, attempts, w, rnd). nat (attempts - i))") auto

declare Collapse_loop.simps [simp del]

definition Collapse :: "Direction list \<Rightarrow> nat \<Rightarrow> int \<Rightarrow> 'm Wave \<Rightarrow> nat list \<Rightarrow> 'm outcome" where
  "Collapse dirs fuel attempts w rnd = Collapse_loop dirs fuel 0 attempts w rnd"

text \<open>
  The same run in the words of the specification (4.5): the attempt is performed the
  given number of times, the history is cleared after each attempt that succeeds, and
  the first attempt that fails ends the run with its error and its wave.
\<close>

fun run_attempts :: "Direction list \<Rightarrow> nat \<Rightarrow> nat \<Rightarrow> 'm Wave \<Rightarrow> nat list \<Rightarrow> 'm outcome" where
  "run_attempts dirs fuel 0 w rnd = Inr (None, w, rnd)"
| "run_attempts dirs fuel (Suc k) w rnd =
     (case Recurse dirs fuel w rnd of
        Inl e \<Rightarrow> Inl e
      | Inr (Some err, w', rnd') \<Rightarrow> Inr (Some err, w', rnd')
      | Inr (None, w', rnd') \<Rightarrow> run_attempts dirs fuel k (w'\<lparr>History := []\<rparr>) rnd')"

section \<open>Initialize\<close>







section \<open>Construction and export\<close>









section \<open>Well-formed grids and the relation between two states of a run\<close>

text \<open>
  The layout \<open>Initialize\<close> produces: \<open>Width * Height\<close> slots in row-major order, the slot
  at index \<open>i\<close> having the coordinates \<open>(i mod Width, i div Width)\<close>.
\<close>

definition grid_ok :: "'m Wave \<Rightarrow> bool" where
  "grid_ok w \<longleftrightarrow>
     length (PossibilitySpace w) = nat (Width w * Height w) \<and>
     (\<forall>i < length (PossibilitySpace w).
        X (PossibilitySpace w ! i) = int i mod Width w \<and>
        Y (PossibilitySpace w ! i) = int i div Width w)"

text \<open>
  A slot lies on the left or right border, or on the upper or lower border, of the
  grid. A corner slot lies on both, an edge slot that is no corner on one of them, an
  interior slot on neither.
\<close>

definition on_border_x :: "'m Wave \<Rightarrow> 'm Slot \<Rightarrow> bool" where
  "on_border_x w s \<longleftrightarrow> X s = 0 \<or> X s = Width w - 1"

definition on_border_y :: "'m Wave \<Rightarrow> 'm Slot \<Rightarrow> bool" where
  "on_border_y w s \<longleftrightarrow> Y s = 0 \<or> Y s = Height w - 1"

text \<open>The coordinates one step away in a direction, as \<open>GetNeighbor\<close> computes them.\<close>

fun step :: "Direction \<Rightarrow> int \<times> int \<Rightarrow> int \<times> int" where
  "step Up (x, y) = (x, y - 1)"
| "step Down (x, y) = (x, y + 1)"
| "step Left (x, y) = (x - 1, y)"
| "step Right (x, y) = (x + 1, y)"

text \<open>
  \<open>narrowed w w'\<close>: \<open>w'\<close> has the same dimensions, catalog, predicate and slots as
  \<open>w\<close>, every slot keeps its coordinates, and each superposition of \<open>w'\<close> is a
  subsequence of the superposition the slot has in \<open>w\<close>.
\<close>

definition narrowed :: "'m Wave \<Rightarrow> 'm Wave \<Rightarrow> bool" where
  "narrowed w w' \<longleftrightarrow>
     Width w' = Width w \<and> Height w' = Height w \<and> Input w' = Input w \<and>
     IsPossibleFn w' = IsPossibleFn w \<and>
     length (PossibilitySpace w') = length (PossibilitySpace w) \<and>
     (\<forall>i < length (PossibilitySpace w).
        X (PossibilitySpace w' ! i) = X (PossibilitySpace w ! i) \<and>
        Y (PossibilitySpace w' ! i) = Y (PossibilitySpace w ! i) \<and>
        subseq (Superposition (PossibilitySpace w' ! i)) (Superposition (PossibilitySpace w ! i)))"

text \<open>The number of slots of the grid that are not in the history.\<close>

definition unvisited :: "'m Wave \<Rightarrow> nat" where
  "unvisited w = card ({..<length (PossibilitySpace w)} - set (History w))"



text \<open>What can be compared of an outcome: the error, the superpositions, the history, the draws left.\<close>

definition observe :: "'m outcome \<Rightarrow> stop + (error option \<times> 'm list list \<times> nat list \<times> nat list)" where
  "observe r =
     (case r of
        Inl e \<Rightarrow> Inl e
      | Inr (e, w, rnd) \<Rightarrow> Inr (e, map Superposition (PossibilitySpace w), History w, rnd))"

section \<open>The visits of a run\<close>





section \<open>Example waves\<close>

text \<open>
  A predicate for the examples: a candidate stays possible when the slot the
  propagation comes from still allows the same module.
\<close>

definition same_tile :: "nat \<Rightarrow> nat Slot \<Rightarrow> nat Slot \<Rightarrow> Direction \<Rightarrow> bool" where
  "same_tile m a b d = (m \<in> set (Superposition a))"

definition no_tile :: "nat \<Rightarrow> nat Slot \<Rightarrow> nat Slot \<Rightarrow> Direction \<Rightarrow> bool" where
  "no_tile m a b d = False"

definition four_directions :: "Direction list" where
  "four_directions = [Up, Down, Left, Right]"


definition ex_grid :: "nat Wave" where
  "ex_grid = \<lparr>Width = 2, Height = 2, Input = [0, 1],
              PossibilitySpace =
                [\<lparr>X = 0, Y = 0, Superposition = [0, 1]\<rparr>, \<lparr>X = 1, Y = 0, Superposition = [0, 1]\<rparr>,
                 \<lparr>X = 0, Y = 1, Superposition = [0, 1]\<rparr>, \<lparr>X = 1, Y = 1, Superposition = [0, 1]\<rparr>],
              History = [], IsPossibleFn = same_tile\<rparr>"

text \<open>The same grid with a predicate that rejects every candidate.\<close>

definition ex_clash :: "nat Wave" where
  "ex_clash = ex_grid\<lparr>IsPossibleFn := no_tile\<rparr>"

text \<open>
  A row of three slots as a failed run can leave it: the slot in the middle has no
  candidate left, the slot on the left still has two.
\<close>

definition ex_row :: "nat Wave" where
  "ex_row = \<lparr>Width = 3, Height = 1, Input = [0, 1],
             PossibilitySpace =
               [\<lparr>X = 0, Y = 0, Superposition = [0, 1]\<rparr>, \<lparr>X = 1, Y = 0, Superposition = []\<rparr>,
                \<lparr>X = 2, Y = 0, Superposition = [0]\<rparr>],
             History = [], IsPossibleFn = same_tile\<rparr>"


text \<open>A row in which every slot has at most one candidate.\<close>

definition ex_settled :: "nat Wave" where
  "ex_settled = ex_row\<lparr>PossibilitySpace :=
       [\<lparr>X = 0, Y = 0, Superposition = [1]\<rparr>, \<lparr>X = 1, Y = 0, Superposition = []\<rparr>,
        \<lparr>X = 2, Y = 0, Superposition = [0]\<rparr>]\<rparr>"

text \<open>The two by two grid in the middle of a propagation that has visited the first slot.\<close>

definition ex_visiting :: "nat Wave" where
  "ex_visiting = ex_grid\<lparr>History := [0]\<rparr>"

text \<open>The two by two grid after the first slot has been collapsed and pushed.\<close>

definition ex_started :: "nat Wave" where
  "ex_started = ex_grid\<lparr>PossibilitySpace :=
       [\<lparr>X = 0, Y = 0, Superposition = [0]\<rparr>, \<lparr>X = 1, Y = 0, Superposition = [0, 1]\<rparr>,
        \<lparr>X = 0, Y = 1, Superposition = [0, 1]\<rparr>, \<lparr>X = 1, Y = 1, Superposition = [0, 1]\<rparr>],
     History := [0]\<rparr>"



section \<open>Basic facts\<close>

lemma IsCollapsed_loop_iff: "IsCollapsed_loop ss \<longleftrightarrow> (\<forall>s \<in> set ss. length (Superposition s) \<le> 1)"
  by (induction ss) auto

lemma HasVisited_iff: "HasVisited w s \<longleftrightarrow> s \<in> set (History w)"
proof -
  have "HasVisited_loop hs s \<longleftrightarrow> s \<in> set hs" for hs
    by (induction hs) auto
  then show ?thesis by (simp add: HasVisited_def)
qed

lemma narrowed_refl: "narrowed w w"
  by (simp add: narrowed_def)

lemma narrowed_trans: "narrowed a b \<Longrightarrow> narrowed b c \<Longrightarrow> narrowed a c"
  unfolding narrowed_def by (auto intro: subseq_order.order_trans)

lemma narrowed_History: "narrowed w (w'\<lparr>History := h\<rparr>) = narrowed w w'"
  "narrowed (w\<lparr>History := h\<rparr>) w' = narrowed w w'"
  by (simp_all add: narrowed_def)

lemma narrowed_update:
  assumes "i < length (PossibilitySpace w)"
    and "subseq s (Superposition (PossibilitySpace w ! i))"
  shows "narrowed w (w\<lparr>PossibilitySpace := (PossibilitySpace w)[i := (PossibilitySpace w ! i)\<lparr>Superposition := s\<rparr>]\<rparr>)"
  using assms unfolding narrowed_def by (auto simp: nth_list_update)

lemma GetSlot_bound: "GetSlot w x y = Inr j \<Longrightarrow> j < length (PossibilitySpace w)"
  by (auto simp: GetSlot_def Let_def split: if_splits)

lemma GetNeighbor_bound: "GetNeighbor w s d = Inr j \<Longrightarrow> j < length (PossibilitySpace w)"
  by (cases d) (auto dest: GetSlot_bound)

lemma GetPossibleModules_loop_filter:
  "GetPossibleModules_loop w a b d ms res = res @ filter (\<lambda>m. IsPossibleFn w m a b d) ms"
  by (induction ms arbitrary: res) simp_all

lemma GetPossibleModules_filter:
  "GetPossibleModules w a b d = filter (\<lambda>m. IsPossibleFn w m a b d) (Superposition b)"
  by (simp add: GetPossibleModules_def GetPossibleModules_loop_filter)

text \<open>Recurse_visit: what each result means\<close>

lemma Recurse_visit_Descend:
  assumes "Recurse_visit w p d = Inr (Descend next w')"
  shows "next < length (PossibilitySpace w) \<and> next \<notin> set (History w) \<and> p < length (PossibilitySpace w) \<and>
    HasNeighbor w (PossibilitySpace w ! p) d \<and> GetNeighbor w (PossibilitySpace w ! p) d = Inr next \<and>
    GetPossibleModules w (PossibilitySpace w ! p) (PossibilitySpace w ! next) d \<noteq> [] \<and>
    length (GetPossibleModules w (PossibilitySpace w ! p) (PossibilitySpace w ! next) d) \<noteq> length (Superposition (PossibilitySpace w ! next)) \<and>
    w' = w\<lparr>PossibilitySpace := (PossibilitySpace w)[next := (PossibilitySpace w ! next)
           \<lparr>Superposition := GetPossibleModules w (PossibilitySpace w ! p) (PossibilitySpace w ! next) d\<rparr>]\<rparr>"
  using assms
  by (auto simp: Recurse_visit_def deref_def Let_def HasVisited_iff dest: GetNeighbor_bound split: if_splits sum.splits)

lemma Recurse_visit_Contradiction:
  assumes "Recurse_visit w p d = Inr (Contradiction w')"
  shows "\<exists>next. next < length (PossibilitySpace w) \<and> next \<notin> set (History w) \<and> p < length (PossibilitySpace w) \<and>
    HasNeighbor w (PossibilitySpace w ! p) d \<and> GetNeighbor w (PossibilitySpace w ! p) d = Inr next \<and>
    GetPossibleModules w (PossibilitySpace w ! p) (PossibilitySpace w ! next) d = [] \<and>
    Superposition (PossibilitySpace w ! next) \<noteq> [] \<and>
    w' = w\<lparr>PossibilitySpace := (PossibilitySpace w)[next := (PossibilitySpace w ! next)\<lparr>Superposition := []\<rparr>]\<rparr>"
  using assms
  by (auto simp: Recurse_visit_def deref_def Let_def HasVisited_iff dest: GetNeighbor_bound split: if_splits sum.splits)

lemma Recurse_visit_narrowed:
  "Recurse_visit w p d = Inr (Descend next w') \<Longrightarrow> narrowed w w'"
  "Recurse_visit w p d = Inr (Contradiction w') \<Longrightarrow> narrowed w w'"
   apply (drule Recurse_visit_Descend, clarsimp, rule narrowed_update, simp, simp add: GetPossibleModules_filter)
  apply (drule Recurse_visit_Contradiction, clarsimp, rule narrowed_update, simp, simp)
  done

lemma Recurse_visit_History:
  "Recurse_visit w p d = Inr (Descend next w') \<Longrightarrow> History w' = History w"
  "Recurse_visit w p d = Inr (Contradiction w') \<Longrightarrow> History w' = History w"
  by (auto dest!: Recurse_visit_Descend Recurse_visit_Contradiction)

lemma count_collapsed_eq:
  "count_collapsed ss n = n + length (filter (\<lambda>s. length (Superposition s) \<le> 1) ss)"
  by (induction ss arbitrary: n) auto

lemma count_collapsed_all:
  "count_collapsed (PossibilitySpace w) 0 = length (PossibilitySpace w) \<longleftrightarrow> IsCollapsed w"
proof -
  have "length (filter P xs) = length xs \<longleftrightarrow> (\<forall>x \<in> set xs. P x)" for P and xs :: "'a Slot list"
    by (metis filter_id_conv length_filter_less less_irrefl)
  then show ?thesis
    by (simp add: count_collapsed_eq IsCollapsed_def IsCollapsed_loop_iff)
qed

lemma subseq_single: "k < length xs \<Longrightarrow> subseq [xs ! k] xs"
  by (simp add: subseq_singleton_left)

lemma Slot_Collapse_result:
  assumes "Slot_Collapse s rnd = Inr (s', rnd')"
  shows "\<exists>k < length (Superposition s). s' = s\<lparr>Superposition := [Superposition s ! k]\<rparr>"
proof -
  from assms obtain r rs where "rnd = r # rs" "Superposition s \<noteq> []"
    "s' = s\<lparr>Superposition := [Superposition s ! (r mod length (Superposition s))]\<rparr>"
    by (auto simp: Slot_Collapse_def Intn_def split: if_splits list.splits)
  moreover from this have "r mod length (Superposition s) < length (Superposition s)"
    by simp
  ultimately show ?thesis by blast
qed

lemma CollapseRandomSlot_loop_result:
  assumes "CollapseRandomSlot_loop w rnd = Inr (r, w', rnd')"
  shows "\<exists>i k. r = Some i \<and> i < length (PossibilitySpace w) \<and>
           k < length (Superposition (PossibilitySpace w ! i)) \<and>
           1 < length (Superposition (PossibilitySpace w ! i)) \<and>
           w' = w\<lparr>PossibilitySpace := (PossibilitySpace w)[i := (PossibilitySpace w ! i)
                  \<lparr>Superposition := [Superposition (PossibilitySpace w ! i) ! k]\<rparr>]\<rparr>"
  using assms
proof (induction rnd)
  case Nil
  then show ?case by (simp split: if_splits)
next
  case (Cons r0 rs)
  show ?case
  proof (cases "length (Superposition (PossibilitySpace w ! (r0 mod length (PossibilitySpace w)))) \<le> 1")
    case True
    with Cons show ?thesis by (simp add: Let_def split: if_splits)
  next
    case False
    with Cons.prems show ?thesis
      by (auto simp: Let_def split: if_splits sum.splits dest!: Slot_Collapse_result)
  qed
qed

lemma CollapseRandomSlot_result:
  assumes "CollapseRandomSlot w rnd = Inr (r, w', rnd')" and "\<not> IsCollapsed w"
  shows "\<exists>i k. r = Some i \<and> i < length (PossibilitySpace w) \<and>
           k < length (Superposition (PossibilitySpace w ! i)) \<and>
           1 < length (Superposition (PossibilitySpace w ! i)) \<and>
           w' = w\<lparr>PossibilitySpace := (PossibilitySpace w)[i := (PossibilitySpace w ! i)
                  \<lparr>Superposition := [Superposition (PossibilitySpace w ! i) ! k]\<rparr>]\<rparr>"
proof -
  from assms have "CollapseRandomSlot_loop w rnd = Inr (r, w', rnd')"
    by (simp add: CollapseRandomSlot_def count_collapsed_all)
  then show ?thesis by (rule CollapseRandomSlot_loop_result)
qed

lemma Recurse_start_result:
  assumes "Recurse_start w rnd = Inr (w1, rnd1)" and "\<not> IsCollapsed w"
  shows "narrowed w w1 \<and> History w1 \<noteq> [] \<and>
         (History w \<noteq> [] \<longrightarrow> w1 = w \<and> rnd1 = rnd) \<and>
         (History w = [] \<longrightarrow> (\<exists>s w'. CollapseRandomSlot w rnd = Inr (Some s, w', rnd1) \<and>
              s < length (PossibilitySpace w) \<and> w1 = w'\<lparr>History := [s]\<rparr> \<and>
              Superposition (PossibilitySpace w1 ! s) \<noteq> [] \<and>
              (\<forall>i. i \<noteq> s \<longrightarrow> PossibilitySpace w1 ! i = PossibilitySpace w ! i)))"
proof (cases "History w = []")
  case False
  with assms show ?thesis by (simp add: Recurse_start_def narrowed_refl)
next
  case True
  with assms(1) obtain r w' where c: "CollapseRandomSlot w rnd = Inr (r, w', rnd1)"
    by (auto simp: Recurse_start_def split: sum.splits option.splits)
  from CollapseRandomSlot_result[OF c assms(2)] obtain i k where
    ik: "r = Some i" "i < length (PossibilitySpace w)" "k < length (Superposition (PossibilitySpace w ! i))"
    "w' = w\<lparr>PossibilitySpace := (PossibilitySpace w)[i := (PossibilitySpace w ! i)
                  \<lparr>Superposition := [Superposition (PossibilitySpace w ! i) ! k]\<rparr>]\<rparr>"
    by blast
  have n: "narrowed w w'" unfolding ik(4)
    by (rule narrowed_update[OF ik(2)]) (simp add: subseq_single ik(3))
  from assms(1) c ik(1) True have w1: "w1 = w'\<lparr>History := [i]\<rparr>"
    by (simp add: Recurse_start_def ik(4))
  show ?thesis using True c ik n w1
    by (auto simp: narrowed_History)
qed

section \<open>Induction and case rules for Recurse\<close>

lemma Recurse_Suc:
  "Recurse dirs (Suc fuel) w rnd =
     (if IsCollapsed w then Inr (None, w, rnd)
      else (case Recurse_start w rnd of
              Inl e \<Rightarrow> Inl e
            | Inr (w', rnd') \<Rightarrow> Recurse_loop dirs fuel (last (History w')) dirs w' rnd'))"
  by simp

lemma Recurse_loop_Continue:
  "Recurse_visit w p d = Inr Continue \<Longrightarrow>
   Recurse_loop dirs fuel p (d # ds) w rnd = Recurse_loop dirs fuel p ds w rnd"
  by simp

lemma Recurse_loop_Contradiction:
  "Recurse_visit w p d = Inr (Contradiction w') \<Longrightarrow>
   Recurse_loop dirs fuel p (d # ds) w rnd = Inr (Some ErrNoSolution, w', rnd)"
  by simp

lemma Recurse_loop_stop:
  "Recurse_visit w p d = Inl e \<Longrightarrow> Recurse_loop dirs fuel p (d # ds) w rnd = Inl e"
  by simp

lemma Recurse_loop_Descend:
  "Recurse_visit w p d = Inr (Descend next w') \<Longrightarrow>
   Recurse_loop dirs fuel p (d # ds) w rnd =
     (case Recurse dirs fuel (w'\<lparr>History := History w' @ [next]\<rparr>) rnd of
             Inl e \<Rightarrow> Inl e
           | Inr (Some err, w'', rnd'') \<Rightarrow> Inr (Some err, w'', rnd'')
           | Inr (None, w'', rnd'') \<Rightarrow>
               if length (History w'') = 0 then Inl SliceBoundsOutOfRange
               else Recurse_loop dirs fuel p ds
                      (w''\<lparr>History := butlast (History w'')\<rparr>) rnd'')"
  by simp

lemma Recurse_cases_induct [case_names no_fuel body finished dir]:
  fixes P :: "Direction list \<Rightarrow> nat \<Rightarrow> 'm Wave \<Rightarrow> nat list \<Rightarrow> bool"
    and Q :: "Direction list \<Rightarrow> nat \<Rightarrow> nat \<Rightarrow> Direction list \<Rightarrow> 'm Wave \<Rightarrow> nat list \<Rightarrow> bool"
  assumes no_fuel: "\<And>dirs w rnd. P dirs 0 w rnd"
    and body: "\<And>dirs fuel w rnd.
        (\<And>w1 rnd1. \<not> IsCollapsed w \<Longrightarrow> Recurse_start w rnd = Inr (w1, rnd1) \<Longrightarrow>
            Q dirs fuel (last (History w1)) dirs w1 rnd1) \<Longrightarrow> P dirs (Suc fuel) w rnd"
    and finished: "\<And>dirs fuel p w rnd. Q dirs fuel p [] w rnd"
    and dir: "\<And>dirs fuel p d ds w rnd.
        (Recurse_visit w p d = Inr Continue \<Longrightarrow> Q dirs fuel p ds w rnd) \<Longrightarrow>
        (\<And>nxt w1. Recurse_visit w p d = Inr (Descend nxt w1) \<Longrightarrow>
            P dirs fuel (w1\<lparr>History := History w1 @ [nxt]\<rparr>) rnd) \<Longrightarrow>
        (\<And>nxt w1 w2 rnd2. Recurse_visit w p d = Inr (Descend nxt w1) \<Longrightarrow>
            Recurse dirs fuel (w1\<lparr>History := History w1 @ [nxt]\<rparr>) rnd = Inr (None, w2, rnd2) \<Longrightarrow>
            History w2 \<noteq> [] \<Longrightarrow>
            Q dirs fuel p ds (w2\<lparr>History := butlast (History w2)\<rparr>) rnd2) \<Longrightarrow>
        Q dirs fuel p (d # ds) w rnd"
  shows "P dirs fuel w rnd" and "Q dirs fuel p ds w rnd"
proof (induction dirs fuel w rnd and dirs fuel p ds w rnd rule: Recurse_Recurse_loop.induct)
  case (1 dirs w rnd)
  show ?case by (rule no_fuel)
next
  case (2 dirs fuel w rnd)
  show ?case by (rule body) (rule "2.IH", simp_all)
next
  case (3 dirs fuel previous w rnd)
  show ?case by (rule finished)
next
  case (4 dirs fuel previous d ds w rnd)
  show ?case
  proof (rule dir)
    assume "Recurse_visit w previous d = Inr Continue"
    then show "Q dirs fuel previous ds w rnd" by (rule "4.IH"(1)) simp
  next
    fix nxt w1
    assume "Recurse_visit w previous d = Inr (Descend nxt w1)"
    then show "P dirs fuel (w1\<lparr>History := History w1 @ [nxt]\<rparr>) rnd"
      by (rule "4.IH"(2)) simp
  next
    fix nxt w1 w2 rnd2
    assume "Recurse_visit w previous d = Inr (Descend nxt w1)"
      and "Recurse dirs fuel (w1\<lparr>History := History w1 @ [nxt]\<rparr>) rnd = Inr (None, w2, rnd2)"
      and "History w2 \<noteq> []"
    then show "Q dirs fuel previous ds (w2\<lparr>History := butlast (History w2)\<rparr>) rnd2"
      by (intro "4.IH"(3)[where x = None and y = "(w2, rnd2)"]) simp_all
  qed
qed

text \<open>The four ways one round of the loop can go, as a case rule.\<close>

lemma Recurse_loop_Cons_cases [consumes 1, case_names continue contradiction inner_error inner_ok]:
  assumes r: "Recurse_loop dirs fuel p (d # ds) w rnd = Inr (e, w', rnd')"
    and continue: "Recurse_visit w p d = Inr Continue \<Longrightarrow>
          Recurse_loop dirs fuel p ds w rnd = Inr (e, w', rnd') \<Longrightarrow> R"
    and contradiction: "Recurse_visit w p d = Inr (Contradiction w') \<Longrightarrow>
          e = Some ErrNoSolution \<Longrightarrow> rnd' = rnd \<Longrightarrow> R"
    and inner_error: "\<And>nxt w1 err. Recurse_visit w p d = Inr (Descend nxt w1) \<Longrightarrow>
          Recurse dirs fuel (w1\<lparr>History := History w1 @ [nxt]\<rparr>) rnd = Inr (Some err, w', rnd') \<Longrightarrow>
          e = Some err \<Longrightarrow> R"
    and inner_ok: "\<And>nxt w1 w2 rnd2. Recurse_visit w p d = Inr (Descend nxt w1) \<Longrightarrow>
          Recurse dirs fuel (w1\<lparr>History := History w1 @ [nxt]\<rparr>) rnd = Inr (None, w2, rnd2) \<Longrightarrow>
          History w2 \<noteq> [] \<Longrightarrow>
          Recurse_loop dirs fuel p ds (w2\<lparr>History := butlast (History w2)\<rparr>) rnd2 = Inr (e, w', rnd') \<Longrightarrow> R"
  shows R
proof (cases "Recurse_visit w p d")
  case (Inl x)
  with r show ?thesis by simp
next
  case (Inr v)
  show ?thesis
  proof (cases v)
    case Continue
    with Inr r show ?thesis by (intro continue) simp_all
  next
    case (Contradiction w1)
    with Inr r show ?thesis by (intro contradiction) auto
  next
    case (Descend nxt w1)
    with Inr have v: "Recurse_visit w p d = Inr (Descend nxt w1)" by simp
    show ?thesis
    proof (cases "Recurse dirs fuel (w1\<lparr>History := History w1 @ [nxt]\<rparr>) rnd")
      case (Inl x)
      with v r show ?thesis by simp
    next
      case (Inr res)
      obtain e2 w2 rnd2 where res: "res = (e2, w2, rnd2)" by (cases res)
      show ?thesis
      proof (cases e2)
        case None
        with v Inr res r show ?thesis
          by (intro inner_ok[OF v, of w2 rnd2]) (auto split: if_splits)
      next
        case (Some err)
        with v Inr res r show ?thesis
          by (intro inner_error[OF v, of err]) auto
      qed
    qed
  qed
qed

lemma Recurse_Suc_cases [consumes 1, case_names collapsed run]:
  assumes r: "Recurse dirs (Suc fuel) w rnd = Inr (e, w', rnd')"
    and collapsed: "IsCollapsed w \<Longrightarrow> e = None \<Longrightarrow> w' = w \<Longrightarrow> rnd' = rnd \<Longrightarrow> R"
    and run: "\<And>w1 rnd1. \<not> IsCollapsed w \<Longrightarrow> Recurse_start w rnd = Inr (w1, rnd1) \<Longrightarrow>
          Recurse_loop dirs fuel (last (History w1)) dirs w1 rnd1 = Inr (e, w', rnd') \<Longrightarrow> R"
  shows R
proof (cases "IsCollapsed w")
  case True
  with r show ?thesis by (intro collapsed) simp_all
next
  case False
  with r obtain w1 rnd1 where "Recurse_start w rnd = Inr (w1, rnd1)"
      "Recurse_loop dirs fuel (last (History w1)) dirs w1 rnd1 = Inr (e, w', rnd')"
    by (auto split: sum.splits)
  with False show ?thesis by (intro run)
qed

lemma Recurse_narrowed_balanced:
  fixes w :: "'m Wave"
  shows "\<forall>e w' rnd'. Recurse dirs fuel w rnd = Inr (e, w', rnd') \<longrightarrow>
           narrowed w w' \<and> (e = None \<longrightarrow> History w \<noteq> [] \<longrightarrow> History w' = History w)"
    and "\<forall>e w' rnd'. Recurse_loop dirs fuel p ds w rnd = Inr (e, w', rnd') \<longrightarrow>
           narrowed w w' \<and> (e = None \<longrightarrow> History w' = History w)"
proof (induction dirs fuel w rnd and dirs fuel p ds w rnd rule: Recurse_cases_induct)
  case (no_fuel dirs w rnd)
  show ?case by simp
next
  case (body dirs fuel w rnd)
  show ?case
  proof (intro allI impI)
    fix e w' rnd'
    assume "Recurse dirs (Suc fuel) w rnd = Inr (e, w', rnd')"
    then show "narrowed w w' \<and> (e = None \<longrightarrow> History w \<noteq> [] \<longrightarrow> History w' = History w)"
    proof (cases rule: Recurse_Suc_cases)
      case collapsed
      then show ?thesis by (simp add: narrowed_refl)
    next
      case (run w1 rnd1)
      from body[OF run(1,2)] run(3)
      have a: "narrowed w1 w'" "e = None \<longrightarrow> History w' = History w1" by auto
      from Recurse_start_result[OF run(2,1)]
      have b: "narrowed w w1" "History w \<noteq> [] \<longrightarrow> w1 = w" by simp_all
      show ?thesis using a b by (auto intro: narrowed_trans)
    qed
  qed
next
  case (finished dirs fuel p w rnd)
  show ?case by (simp add: narrowed_refl)
next
  case (dir dirs fuel p d ds w rnd)
  show ?case
  proof (intro allI impI)
    fix e w' rnd'
    assume "Recurse_loop dirs fuel p (d # ds) w rnd = Inr (e, w', rnd')"
    then show "narrowed w w' \<and> (e = None \<longrightarrow> History w' = History w)"
    proof (cases rule: Recurse_loop_Cons_cases)
      case continue
      with dir(1) show ?thesis by blast
    next
      case contradiction
      then show ?thesis by (auto dest: Recurse_visit_narrowed)
    next
      case (inner_error nxt w1 err)
      from dir(2)[OF inner_error(1)] inner_error(2)
      have "narrowed (w1\<lparr>History := History w1 @ [nxt]\<rparr>) w'" by blast
      moreover from inner_error(1) have "narrowed w w1" by (rule Recurse_visit_narrowed)
      ultimately show ?thesis using inner_error(3)
        by (auto simp: narrowed_History intro: narrowed_trans)
    next
      case (inner_ok nxt w1 w2 rnd2)
      from inner_ok(1) have n1: "narrowed w w1" and h1: "History w1 = History w"
        by (auto dest: Recurse_visit_narrowed Recurse_visit_History)
      from dir(2)[OF inner_ok(1)] inner_ok(2)
      have n2: "narrowed (w1\<lparr>History := History w1 @ [nxt]\<rparr>) w2"
        and h2: "History w2 = History w1 @ [nxt]" by auto
      from dir(3)[OF inner_ok(1,2,3)] inner_ok(4)
      have n3: "narrowed (w2\<lparr>History := butlast (History w2)\<rparr>) w'"
        and h3: "e = None \<longrightarrow> History w' = butlast (History w2)" by auto
      from n1 n2 n3 have "narrowed w w'"
        by (auto simp: narrowed_History intro: narrowed_trans)
      with h1 h2 h3 show ?thesis by simp
    qed
  qed
qed

section \<open>Collapse and the attempts of the specification\<close>

lemma Collapse_loop_run_attempts:
  "i \<le> attempts \<Longrightarrow>
   Collapse_loop dirs fuel i attempts w rnd = run_attempts dirs fuel (nat (attempts - i)) w rnd"
proof (induction "nat (attempts - i)" arbitrary: i w rnd)
  case 0
  then have "\<not> i < attempts" by simp
  with 0 show ?case by (simp add: Collapse_loop.simps)
next
  case (Suc k)
  then have lt: "i < attempts" and k: "k = nat (attempts - (i + 1))" and le: "i + 1 \<le> attempts"
    by linarith+
  have n: "nat (attempts - i) = Suc k" using Suc(2) by simp
  show ?case
    unfolding n
    apply (subst Collapse_loop.simps)
    using lt Suc(1)[OF k le]
    by (auto simp: k split: sum.splits option.splits)
qed

lemma Collapse_run_attempts:
  "Collapse dirs fuel attempts w rnd = run_attempts dirs fuel (nat attempts) w rnd"
proof (cases "0 \<le> attempts")
  case True
  then show ?thesis by (simp add: Collapse_def Collapse_loop_run_attempts)
next
  case False
  then show ?thesis by (simp add: Collapse_def Collapse_loop.simps)
qed

lemma run_attempts_History:
  "run_attempts dirs fuel (Suc k) w rnd = Inr (None, w', rnd') \<Longrightarrow> History w' = []"
proof (induction k arbitrary: w rnd)
  case 0
  then show ?case by (auto split: sum.splits option.splits)
next
  case (Suc k)
  from Suc.prems obtain w1 rnd1 where
    "run_attempts dirs fuel (Suc k) (w1\<lparr>History := []\<rparr>) rnd1 = Inr (None, w', rnd')"
    by (subst (asm) run_attempts.simps) (auto split: sum.splits option.splits)
  then show ?case by (rule Suc.IH)
qed

lemma Recurse_top_History:
  assumes "History w = []" "\<not> IsCollapsed w" "Recurse dirs fuel w rnd = Inr (None, w', rnd')"
  shows "\<exists>s w1 rnd1. CollapseRandomSlot w rnd = Inr (Some s, w1, rnd1) \<and> History w' = [s]"
proof (cases fuel)
  case 0
  with assms show ?thesis by simp
next
  case (Suc n)
  with assms(3) have "Recurse dirs (Suc n) w rnd = Inr (None, w', rnd')" by simp
  then show ?thesis
  proof (cases rule: Recurse_Suc_cases)
    case collapsed
    with assms show ?thesis by simp
  next
    case (run w1 rnd1)
    from Recurse_start_result[OF run(2,1)] assms(1)
    obtain s w0 where s: "CollapseRandomSlot w rnd = Inr (Some s, w0, rnd1)" "w1 = w0\<lparr>History := [s]\<rparr>"
      by auto
    from Recurse_narrowed_balanced(2) run(3) have "History w' = History w1" by blast
    with s show ?thesis by auto
  qed
qed

section \<open>Slots that become empty\<close>












lemma observe_Inr:
  "observe r = Inr (e, sups, h, rnd) \<Longrightarrow>
   \<exists>w'. r = Inr (e, w', rnd) \<and> map Superposition (PossibilitySpace w') = sups \<and> History w' = h"
  by (auto simp: observe_def split: sum.splits)

section \<open>Stops, fuel and draws\<close>

lemma unvisited_History_eq:
  "length (PossibilitySpace w') = length (PossibilitySpace w) \<Longrightarrow> History w' = History w \<Longrightarrow>
   unvisited w' = unvisited w"
  by (simp add: unvisited_def)

lemma unvisited_le: "unvisited w \<le> length (PossibilitySpace w)"
proof -
  have "card ({..<length (PossibilitySpace w)} - set (History w)) \<le> card {..<length (PossibilitySpace w)}"
    by (intro card_mono) auto
  then show ?thesis by (simp add: unvisited_def)
qed

lemma unvisited_push:
  assumes "nxt < length (PossibilitySpace w)" "nxt \<notin> set (History w)"
  shows "Suc (unvisited (w\<lparr>History := History w @ [nxt]\<rparr>)) = unvisited w"
proof -
  let ?A = "{..<length (PossibilitySpace w)} - set (History w)"
  have "finite ?A" by simp
  moreover have "nxt \<in> ?A" using assms by simp
  ultimately have "Suc (card (?A - {nxt})) = card ?A"
    by (rule card_Suc_Diff1)
  moreover have "{..<length (PossibilitySpace w)} - set (History w @ [nxt]) = ?A - {nxt}"
    by auto
  ultimately show ?thesis by (simp add: unvisited_def)
qed

lemma GetNeighbor_stops: "GetNeighbor w s d = Inl e \<Longrightarrow> e = IndexOutOfRange"
  by (cases d) (simp_all add: GetSlot_def Let_def split: if_splits)

lemma deref_stops: "deref w p = Inl e \<Longrightarrow> e = NilDereference"
  by (simp add: deref_def split: if_splits)

lemma Recurse_visit_stops:
  assumes "Recurse_visit w p d = Inl e"
  shows "e = IndexOutOfRange \<or> e = NilDereference"
proof (cases "deref w p")
  case (Inl x)
  with assms deref_stops[OF Inl] show ?thesis by (simp add: Recurse_visit_def)
next
  case (Inr prev)
  show ?thesis
  proof (cases "HasNeighbor w prev d")
    case False
    with Inr assms show ?thesis by (simp add: Recurse_visit_def)
  next
    case True
    show ?thesis
    proof (cases "GetNeighbor w prev d")
      case (Inl x)
      with Inr True assms GetNeighbor_stops[OF Inl] show ?thesis
        by (simp add: Recurse_visit_def)
    next
      case r: (Inr nxt)
      with Inr True assms show ?thesis
        by (simp add: Recurse_visit_def Let_def split: if_splits)
    qed
  qed
qed

lemma Slot_Collapse_stops:
  "Slot_Collapse s rnd = Inl e \<Longrightarrow> e = OutOfDraws \<or> e = InvalidArgument"
  by (simp add: Slot_Collapse_def Intn_def split: if_splits list.splits)

lemma CollapseRandomSlot_loop_stops:
  "CollapseRandomSlot_loop w rnd = Inl e \<Longrightarrow> e = OutOfDraws \<or> e = InvalidArgument"
proof (induction rnd)
  case Nil
  then show ?case by (simp split: if_splits)
next
  case (Cons r rs)
  show ?case
  proof (cases "length (PossibilitySpace w) = 0")
    case True
    with Cons.prems show ?thesis by simp
  next
    case False
    show ?thesis
    proof (cases "length (Superposition (PossibilitySpace w ! (r mod length (PossibilitySpace w)))) \<le> 1")
      case True
      with False Cons show ?thesis by (simp add: Let_def)
    next
      case big: False
      show ?thesis
      proof (cases "Slot_Collapse (PossibilitySpace w ! (r mod length (PossibilitySpace w))) rs")
        case (Inl x)
        with False big Cons.prems Slot_Collapse_stops[OF Inl] show ?thesis
          by (simp add: Let_def)
      next
        case (Inr y)
        with False big Cons.prems show ?thesis
          by (simp add: Let_def split: prod.splits)
      qed
    qed
  qed
qed

lemma CollapseRandomSlot_stops:
  "CollapseRandomSlot w rnd = Inl e \<Longrightarrow> e = OutOfDraws \<or> e = InvalidArgument"
  by (simp add: CollapseRandomSlot_def split: if_splits) (rule CollapseRandomSlot_loop_stops)

lemma Recurse_start_stops:
  assumes "Recurse_start w rnd = Inl e"
  shows "History w = [] \<and> (e = NilDereference \<or> CollapseRandomSlot w rnd = Inl e) \<and> e \<noteq> OutOfFuel"
proof (cases "History w = []")
  case False
  with assms show ?thesis by (simp add: Recurse_start_def)
next
  case True
  show ?thesis
  proof (cases "CollapseRandomSlot w rnd")
    case (Inl x)
    with True assms CollapseRandomSlot_stops[OF Inl] show ?thesis
      by (auto simp: Recurse_start_def)
  next
    case (Inr y)
    obtain r w' rnd' where "y = (r, w', rnd')" by (cases y)
    with Inr True assms show ?thesis
      by (cases r) (simp_all add: Recurse_start_def)
  qed
qed

lemma Recurse_fuel:
  fixes w :: "'m Wave"
  shows "unvisited w < fuel \<longrightarrow> Recurse dirs fuel w rnd \<noteq> Inl OutOfFuel"
    and "unvisited w \<le> fuel \<longrightarrow> Recurse_loop dirs fuel p ds w rnd \<noteq> Inl OutOfFuel"
proof (induction dirs fuel w rnd and dirs fuel p ds w rnd rule: Recurse_cases_induct)
  case (no_fuel dirs w rnd)
  show ?case by simp
next
  case (body dirs fuel w rnd)
  show ?case
  proof
    assume u: "unvisited w < Suc fuel"
    show "Recurse dirs (Suc fuel) w rnd \<noteq> Inl OutOfFuel"
    proof (cases "IsCollapsed w")
      case True
      then show ?thesis by simp
    next
      case False
      show ?thesis
      proof (cases "Recurse_start w rnd")
        case (Inl e)
        with False Recurse_start_stops[OF Inl] show ?thesis by simp
      next
        case (Inr r)
        obtain w1 rnd1 where r: "r = (w1, rnd1)" by (cases r)
        with Inr have st: "Recurse_start w rnd = Inr (w1, rnd1)" by simp
        from Recurse_start_result[OF st False]
        have n: "narrowed w w1" and same: "History w \<noteq> [] \<longrightarrow> w1 = w"
          and fresh: "History w = [] \<longrightarrow> (\<exists>s. s < length (PossibilitySpace w) \<and> History w1 = [s])"
          by auto
        have "unvisited w1 \<le> fuel"
        proof (cases "History w = []")
          case False
          with same u show ?thesis by simp
        next
          case True
          with fresh obtain s where s: "s < length (PossibilitySpace w)" "History w1 = [s]" by blast
          let ?w0 = "w1\<lparr>History := []\<rparr>"
          from n have l: "length (PossibilitySpace w1) = length (PossibilitySpace w)"
            by (simp add: narrowed_def)
          have "Suc (unvisited (?w0\<lparr>History := History ?w0 @ [s]\<rparr>)) = unvisited ?w0"
            by (rule unvisited_push) (simp_all add: l s)
          moreover have "unvisited (?w0\<lparr>History := History ?w0 @ [s]\<rparr>) = unvisited w1"
            by (simp add: unvisited_def s)
          moreover have "unvisited ?w0 = unvisited w"
            by (simp add: unvisited_def l True)
          ultimately show ?thesis using u by simp
        qed
        with body[OF False st] have "Recurse_loop dirs fuel (last (History w1)) dirs w1 rnd1 \<noteq> Inl OutOfFuel"
          by simp
        with False st show ?thesis by simp
      qed
    qed
  qed
next
  case (finished dirs fuel p w rnd)
  show ?case by simp
next
  case (dir dirs fuel p d ds w rnd)
  show ?case
  proof
    assume u: "unvisited w \<le> fuel"
    show "Recurse_loop dirs fuel p (d # ds) w rnd \<noteq> Inl OutOfFuel"
    proof (cases "Recurse_visit w p d")
      case (Inl e)
      with Recurse_visit_stops[OF Inl] show ?thesis by auto
    next
      case (Inr v)
      show ?thesis
      proof (cases v)
        case Continue
        with Inr dir(1) u show ?thesis by simp
      next
        case (Contradiction w1)
        with Inr show ?thesis by simp
      next
        case (Descend nxt w1)
        with Inr have v: "Recurse_visit w p d = Inr (Descend nxt w1)" by simp
        let ?wp = "w1\<lparr>History := History w1 @ [nxt]\<rparr>"
        from Recurse_visit_Descend[OF v] have nx: "nxt < length (PossibilitySpace w)" "nxt \<notin> set (History w)"
          by simp_all
        from v have n1: "narrowed w w1" and h1: "History w1 = History w"
          by (auto dest: Recurse_visit_narrowed Recurse_visit_History)
        from n1 have l1: "length (PossibilitySpace w1) = length (PossibilitySpace w)"
          by (simp add: narrowed_def)
        have "Suc (unvisited ?wp) = unvisited w1"
          by (rule unvisited_push) (simp_all add: l1 h1 nx)
        moreover have u1: "unvisited w1 = unvisited w"
          by (rule unvisited_History_eq[OF l1 h1])
        ultimately have "unvisited ?wp < fuel" using u by simp
        with dir(2)[OF v] have nf: "Recurse dirs fuel ?wp rnd \<noteq> Inl OutOfFuel" by simp
        show ?thesis
        proof (cases "Recurse dirs fuel ?wp rnd")
          case (Inl e)
          with v nf show ?thesis by simp
        next
          case (Inr res)
          obtain e2 w2 rnd2 where res: "res = (e2, w2, rnd2)" by (cases res)
          show ?thesis
          proof (cases e2)
            case (Some err)
            with v Inr res show ?thesis by simp
          next
            case None
            with Inr res have r: "Recurse dirs fuel ?wp rnd = Inr (None, w2, rnd2)" by simp
            from Recurse_narrowed_balanced(1)[rule_format, OF r]
            have n2: "narrowed ?wp w2" and h2: "History w2 = History w1 @ [nxt]" by simp_all
            from n2 have l2: "length (PossibilitySpace w2) = length (PossibilitySpace w1)"
              by (simp add: narrowed_def)
            from h2 have ne: "History w2 \<noteq> []" by simp
            have "unvisited (w2\<lparr>History := butlast (History w2)\<rparr>) = unvisited w"
              by (simp add: unvisited_def l2 l1 h2 h1)
            with dir(3)[OF v r ne] u
            have "Recurse_loop dirs fuel p ds (w2\<lparr>History := butlast (History w2)\<rparr>) rnd2 \<noteq> Inl OutOfFuel"
              by simp
            with v r ne show ?thesis by simp
          qed
        qed
      qed
    qed
  qed
qed

lemma Recurse_draws:
  fixes w :: "'m Wave"
  shows "History w \<noteq> [] \<longrightarrow> Recurse dirs fuel w rnd \<noteq> Inl OutOfDraws"
    and "Recurse_loop dirs fuel p ds w rnd \<noteq> Inl OutOfDraws"
proof (induction dirs fuel w rnd and dirs fuel p ds w rnd rule: Recurse_cases_induct)
  case (no_fuel dirs w rnd)
  show ?case by simp
next
  case (body dirs fuel w rnd)
  show ?case
  proof
    assume h: "History w \<noteq> []"
    then have st: "Recurse_start w rnd = Inr (w, rnd)" by (simp add: Recurse_start_def)
    show "Recurse dirs (Suc fuel) w rnd \<noteq> Inl OutOfDraws"
    proof (cases "IsCollapsed w")
      case True
      then show ?thesis by simp
    next
      case False
      with body[OF False st] st show ?thesis by simp
    qed
  qed
next
  case (finished dirs fuel p w rnd)
  show ?case by simp
next
  case (dir dirs fuel p d ds w rnd)
  show ?case
  proof (cases "Recurse_visit w p d")
    case (Inl e)
    with Recurse_visit_stops[OF Inl] show ?thesis by auto
  next
    case (Inr v)
    show ?thesis
    proof (cases v)
      case Continue
      with Inr dir(1) show ?thesis by simp
    next
      case (Contradiction w1)
      with Inr show ?thesis by simp
    next
      case (Descend nxt w1)
      with Inr have v: "Recurse_visit w p d = Inr (Descend nxt w1)" by simp
      let ?wp = "w1\<lparr>History := History w1 @ [nxt]\<rparr>"
      from dir(2)[OF v] have nd: "Recurse dirs fuel ?wp rnd \<noteq> Inl OutOfDraws" by simp
      show ?thesis
      proof (cases "Recurse dirs fuel ?wp rnd")
        case (Inl e)
        with v nd show ?thesis by simp
      next
        case (Inr res)
        obtain e2 w2 rnd2 where res: "res = (e2, w2, rnd2)" by (cases res)
        show ?thesis
        proof (cases e2)
          case (Some err)
          with v Inr res show ?thesis by simp
        next
          case None
          with Inr res have r: "Recurse dirs fuel ?wp rnd = Inr (None, w2, rnd2)" by simp
          show ?thesis
          proof (cases "History w2 = []")
            case True
            with v r show ?thesis by simp
          next
            case False
            with dir(3)[OF v r False] v r show ?thesis by simp
          qed
        qed
      qed
    qed
  qed
qed

lemma CollapseRandomSlot_loop_enough_draws:
  assumes "Suc k < length rnd"
    and "1 < length (Superposition (PossibilitySpace w ! (rnd ! k mod length (PossibilitySpace w))))"
  shows "CollapseRandomSlot_loop w rnd \<noteq> Inl OutOfDraws"
  using assms
proof (induction rnd arbitrary: k)
  case Nil
  then show ?case by simp
next
  case (Cons r rs)
  show ?case
  proof (cases "length (PossibilitySpace w) = 0")
    case True
    then show ?thesis by simp
  next
    case False
    let ?s = "PossibilitySpace w ! (r mod length (PossibilitySpace w))"
    show ?thesis
    proof (cases "length (Superposition ?s) \<le> 1")
      case True
      with Cons.prems obtain j where k: "k = Suc j" by (cases k) auto
      with Cons.prems have "Suc j < length rs"
        "1 < length (Superposition (PossibilitySpace w ! (rs ! j mod length (PossibilitySpace w))))"
        by simp_all
      from Cons.IH[OF this] False True show ?thesis by (simp add: Let_def)
    next
      case big: False
      from Cons.prems obtain r' rs' where rs: "rs = r' # rs'" by (cases rs) auto
      from big have "Superposition ?s \<noteq> []" by auto
      then have "Slot_Collapse ?s rs =
          Inr (?s\<lparr>Superposition := [Superposition ?s ! (r' mod length (Superposition ?s))]\<rparr>, rs')"
        by (simp add: Slot_Collapse_def Intn_def rs)
      with False big show ?thesis by (simp add: Let_def)
    qed
  qed
qed

lemma Recurse_not_OutOfDraws:
  assumes "History w \<noteq> [] \<or>
     (\<exists>k. Suc k < length rnd \<and>
        1 < length (Superposition (PossibilitySpace w ! (rnd ! k mod length (PossibilitySpace w)))))"
  shows "Recurse dirs fuel w rnd \<noteq> Inl OutOfDraws"
proof (cases "History w = []")
  case False
  with Recurse_draws(1) show ?thesis by blast
next
  case True
  with assms obtain k where k: "Suc k < length rnd"
    "1 < length (Superposition (PossibilitySpace w ! (rnd ! k mod length (PossibilitySpace w))))"
    by blast
  show ?thesis
  proof (cases fuel)
    case 0
    then show ?thesis by simp
  next
    case (Suc n)
    show ?thesis
    proof (cases "IsCollapsed w")
      case True
      with Suc show ?thesis by simp
    next
      case False
      show ?thesis
      proof (cases "Recurse_start w rnd")
        case (Inl e)
        from Recurse_start_stops[OF Inl] have "e = NilDereference \<or> CollapseRandomSlot w rnd = Inl e"
          by simp
        moreover have "CollapseRandomSlot w rnd \<noteq> Inl OutOfDraws"
          using CollapseRandomSlot_loop_enough_draws[OF k]
          by (simp add: CollapseRandomSlot_def)
        ultimately have "e \<noteq> OutOfDraws" by auto
        with Inl False Suc show ?thesis by simp
      next
        case (Inr r)
        obtain w1 rnd1 where "r = (w1, rnd1)" by (cases r)
        with Inr False Suc Recurse_draws(2)[of dirs n "last (History w1)" dirs w1 rnd1]
        show ?thesis by simp
      qed
    qed
  qed
qed

section \<open>Coordinates in a well-formed grid\<close>

lemma Direction_UNIV: "(UNIV :: Direction set) = set [Up, Down, Left, Right]"
proof -
  have "d \<in> set [Up, Down, Left, Right]" for d by (cases d) simp_all
  then show ?thesis by blast
qed

lemma card_directions:
  "card {d. P d} = length (filter P [Up, Down, Left, Right])"
proof -
  have "{d. P d} = set (filter P [Up, Down, Left, Right])"
  proof (rule set_eqI)
    fix d show "d \<in> {d. P d} \<longleftrightarrow> d \<in> set (filter P [Up, Down, Left, Right])"
      by (cases d) simp_all
  qed
  moreover have "distinct (filter P [Up, Down, Left, Right])"
    by (rule distinct_filter) simp
  ultimately show ?thesis by (simp only: distinct_card)
qed

lemma cell_index_bounds:
  fixes x y W H :: int
  assumes "0 \<le> x" "x < W" "0 \<le> y" "y < H"
  shows "0 \<le> x + y * W" and "x + y * W < W * H"
proof -
  from assms have W: "0 < W" by simp
  from assms W show "0 \<le> x + y * W" by simp
  from assms have "y + 1 \<le> H" by simp
  with W have "(y + 1) * W \<le> H * W" by (intro mult_right_mono) simp_all
  with assms show "x + y * W < W * H" by (simp add: algebra_simps)
qed

lemma cell_index_mod_div:
  fixes x y W :: int
  assumes "0 \<le> x" "x < W"
  shows "(x + y * W) mod W = x" and "(x + y * W) div W = y"
  using assms by simp_all

lemma grid_ok_coords:
  assumes "grid_ok w" "0 < Width w" "i < length (PossibilitySpace w)"
  shows "0 \<le> X (PossibilitySpace w ! i)" "X (PossibilitySpace w ! i) < Width w"
        "0 \<le> Y (PossibilitySpace w ! i)" "Y (PossibilitySpace w ! i) < Height w"
proof -
  from assms have xy: "X (PossibilitySpace w ! i) = int i mod Width w"
      "Y (PossibilitySpace w ! i) = int i div Width w"
    and len: "int i < Width w * Height w"
    by (auto simp: grid_ok_def)
  note W = assms(2)
  from W xy show "0 \<le> X (PossibilitySpace w ! i)" "X (PossibilitySpace w ! i) < Width w"
    by simp_all
  from W xy show "0 \<le> Y (PossibilitySpace w ! i)" by (simp add: pos_imp_zdiv_nonneg_iff)
  have "int i div Width w < Height w"
  proof (rule ccontr)
    assume "\<not> int i div Width w < Height w"
    then have "Height w \<le> int i div Width w" by simp
    with W have "Height w * Width w \<le> int i div Width w * Width w"
      by (intro mult_right_mono) simp_all
    moreover from W have "int i div Width w * Width w \<le> int i"
      by (simp add: minus_mod_eq_div_mult[symmetric])
    moreover from len have "int i < Height w * Width w" by (simp add: mult.commute)
    ultimately show False by linarith
  qed
  with xy show "Y (PossibilitySpace w ! i) < Height w" by simp
qed

lemma grid_ok_GetSlot:
  assumes "grid_ok w" "0 \<le> x" "x < Width w" "0 \<le> y" "y < Height w"
  shows "\<exists>j. GetSlot w x y = Inr j \<and> j < length (PossibilitySpace w) \<and>
           X (PossibilitySpace w ! j) = x \<and> Y (PossibilitySpace w ! j) = y"
proof -
  let ?i = "x + y * Width w"
  from cell_index_bounds[OF assms(2-5)] have b: "0 \<le> ?i" "?i < Width w * Height w" .
  from assms(1) have len: "length (PossibilitySpace w) = nat (Width w * Height w)"
    by (simp add: grid_ok_def)
  from b len have lt: "nat ?i < length (PossibilitySpace w)" by simp
  with b len have g: "GetSlot w x y = Inr (nat ?i)"
    by (simp add: GetSlot_def Let_def)
  from assms(1) lt have "X (PossibilitySpace w ! nat ?i) = int (nat ?i) mod Width w"
     "Y (PossibilitySpace w ! nat ?i) = int (nat ?i) div Width w"
    by (simp_all add: grid_ok_def)
  with b(1) cell_index_mod_div[OF assms(2,3), of y]
  have "X (PossibilitySpace w ! nat ?i) = x" "Y (PossibilitySpace w ! nat ?i) = y"
    by simp_all
  with g lt show ?thesis by blast
qed

lemma grid_ok_GetNeighbor:
  assumes g: "grid_ok w" and W: "0 < Width w" and i: "i < length (PossibilitySpace w)"
    and h: "HasNeighbor w (PossibilitySpace w ! i) d"
  shows "\<exists>j. GetNeighbor w (PossibilitySpace w ! i) d = Inr j \<and> j < length (PossibilitySpace w) \<and>
           (X (PossibilitySpace w ! j), Y (PossibilitySpace w ! j)) =
             step d (X (PossibilitySpace w ! i), Y (PossibilitySpace w ! i))"
proof -
  let ?s = "PossibilitySpace w ! i"
  note c = grid_ok_coords[OF g W i]
  show ?thesis
  proof (cases d)
    case Up
    with h have "0 \<le> Y ?s - 1" "Y ?s - 1 < Height w" using c by simp_all
    from grid_ok_GetSlot[OF g c(1,2) this] Up show ?thesis by simp
  next
    case Down
    with h have "0 \<le> Y ?s + 1" "Y ?s + 1 < Height w" using c by simp_all
    from grid_ok_GetSlot[OF g c(1,2) this] Down show ?thesis by simp
  next
    case Left
    with h have "0 \<le> X ?s - 1" "X ?s - 1 < Width w" using c by simp_all
    from grid_ok_GetSlot[OF g this c(3,4)] Left show ?thesis by simp
  next
    case Right
    with h have "0 \<le> X ?s + 1" "X ?s + 1 < Width w" using c by simp_all
    from grid_ok_GetSlot[OF g this c(3,4)] Right show ?thesis by simp
  qed
qed

lemma neighbour_count:
  assumes g: "grid_ok w" and W: "2 \<le> Width w" and H: "2 \<le> Height w"
    and i: "i < length (PossibilitySpace w)"
  shows "card {d. HasNeighbor w (PossibilitySpace w ! i) d} =
           (if on_border_x w (PossibilitySpace w ! i) \<and> on_border_y w (PossibilitySpace w ! i) then 2
            else if on_border_x w (PossibilitySpace w ! i) \<or> on_border_y w (PossibilitySpace w ! i) then 3
            else 4)"
proof -
  from W have W0: "0 < Width w" by simp
  note c = grid_ok_coords[OF g W0 i]
  show ?thesis
    unfolding card_directions on_border_x_def on_border_y_def
    using c W H by auto
qed

lemma grid_ok_ex_grid: "grid_ok ex_grid"
proof -
  have c: "i = 0 \<or> i = 1 \<or> i = 2 \<or> i = 3" if "i < length (PossibilitySpace ex_grid)" for i
    using that by (simp add: ex_grid_def) arith
  show ?thesis
    unfolding grid_ok_def
  proof (intro conjI allI impI)
    show "length (PossibilitySpace ex_grid) = nat (Width ex_grid * Height ex_grid)"
      by (simp add: ex_grid_def)
  next
    fix i assume "i < length (PossibilitySpace ex_grid)"
    from c[OF this] show "X (PossibilitySpace ex_grid ! i) = int i mod Width ex_grid"
      by (auto simp: ex_grid_def)
  next
    fix i assume "i < length (PossibilitySpace ex_grid)"
    from c[OF this] show "Y (PossibilitySpace ex_grid ! i) = int i div Width ex_grid"
      by (auto simp: ex_grid_def)
  qed
qed

section \<open>The loops of Initialize\<close>












section \<open>Construction and the picture\<close>




section \<open>Properties of the filter\<close>

lemma filter_same_length: "length (filter P xs) = length xs \<Longrightarrow> filter P xs = xs"
  by (metis filter_True length_filter_less linorder_neq_iff)

text \<open>
  Claim C2. For all slots \<open>a\<close>, \<open>b\<close> and every direction \<open>d\<close>, the result of
  \<open>GetPossibleModules\<close> is the filter of \<open>b\<close>'s superposition by
  \<open>IsPossibleFn(m, a, b, d)\<close>: exactly the passing modules, in their order in \<open>b\<close>.
  The function only returns the new list; neither slot is written.
\<close>

theorem GetPossibleModules_is_filter:
  "GetPossibleModules w a b d = filter (\<lambda>m. IsPossibleFn w m a b d) (Superposition b)"
  by (rule GetPossibleModules_filter)

text \<open>
  Claim C3. The filtered list is a subsequence of \<open>b\<close>'s superposition, and when it
  has the same length as \<open>b\<close>'s superposition it is equal to it: the size test of
  \<open>Recurse\<close> detects exactly "nothing was removed".
\<close>

theorem size_equality_is_fixed_point:
  "subseq (GetPossibleModules w a b d) (Superposition b) \<and>
   (length (GetPossibleModules w a b d) = length (Superposition b) \<longrightarrow>
      GetPossibleModules w a b d = Superposition b)"
  by (simp add: GetPossibleModules_filter filter_same_length)

text \<open>
  In the two by two grid every candidate of the second slot is allowed by the first:
  the lengths agree and the filtered list is the superposition itself.
\<close>

theorem size_equality_is_fixed_point_witness:
  "length (GetPossibleModules ex_grid (PossibilitySpace ex_grid ! 0) (PossibilitySpace ex_grid ! 1) Right)
     = length (Superposition (PossibilitySpace ex_grid ! 1)) \<and>
   GetPossibleModules ex_grid (PossibilitySpace ex_grid ! 0) (PossibilitySpace ex_grid ! 1) Right
     = Superposition (PossibilitySpace ex_grid ! 1)"
proof -
  have len: "length (GetPossibleModules ex_grid (PossibilitySpace ex_grid ! 0) (PossibilitySpace ex_grid ! 1) Right)
     = length (Superposition (PossibilitySpace ex_grid ! 1))"
    by (simp add: ex_grid_def GetPossibleModules_def same_tile_def)
  with size_equality_is_fixed_point
         [of ex_grid "PossibilitySpace ex_grid ! 0" "PossibilitySpace ex_grid ! 1" Right]
  show ?thesis by simp
qed

section \<open>Full-collapse detection\<close>

text \<open>
  Claim C7. \<open>IsCollapsed\<close> holds exactly when every slot of the grid has at most one
  candidate (a slot with none counts as collapsed), and on such a grid \<open>Recurse\<close>
  returns \<open>nil\<close> at once, with the wave and the draws as they were.
\<close>

theorem IsCollapsed_correct:
  "(IsCollapsed w \<longleftrightarrow> (\<forall>s \<in> set (PossibilitySpace w). length (Superposition s) \<le> 1)) \<and>
   (IsCollapsed w \<longrightarrow> Recurse dirs (Suc fuel) w rnd = Inr (None, w, rnd))"
  by (simp add: IsCollapsed_def IsCollapsed_loop_iff)

theorem IsCollapsed_correct_witness:
  "IsCollapsed ex_settled \<and>
   map (\<lambda>s. length (Superposition s)) (PossibilitySpace ex_settled) = [1, 0, 1] \<and>
   Recurse four_directions (Suc 0) ex_settled [] = Inr (None, ex_settled, [])"
proof -
  have c: "IsCollapsed ex_settled"
    by (simp add: ex_settled_def ex_row_def IsCollapsed_def)
  have "map (\<lambda>s. length (Superposition s)) (PossibilitySpace ex_settled) = [1, 0, 1]"
    by (simp add: ex_settled_def ex_row_def)
  with c IsCollapsed_correct[of ex_settled four_directions 0 "[]"]
  show ?thesis by blast
qed

section \<open>The contradiction error\<close>
















section \<open>The history\<close>

text \<open>
  Claim C9. A successful call of \<open>Recurse\<close> that starts with an empty history on a
  grid that is not fully collapsed returns with exactly one entry in the history, the
  slot that \<open>CollapseRandomSlot\<close> collapsed. Every call that starts with a non-empty
  history, and every run of the loop, returns on success with the history it started
  with: each slot pushed during the propagation has been popped again. A successful
  \<open>Collapse\<close> of at least one attempt leaves the history empty.
\<close>

theorem History_balanced:
  "(History w = [] \<and> \<not> IsCollapsed w \<and> Recurse dirs fuel w rnd = Inr (None, w', rnd') \<longrightarrow>
      (\<exists>s w1 rnd1. CollapseRandomSlot w rnd = Inr (Some s, w1, rnd1) \<and> History w' = [s])) \<and>
   (History w \<noteq> [] \<and> Recurse dirs fuel w rnd = Inr (None, w', rnd') \<longrightarrow> History w' = History w) \<and>
   (Recurse_loop dirs fuel p ds w rnd = Inr (None, w', rnd') \<longrightarrow> History w' = History w) \<and>
   (0 < attempts \<and> Collapse dirs fuel attempts w rnd = Inr (None, w', rnd') \<longrightarrow> History w' = [])"
proof (intro conjI impI)
  assume "History w = [] \<and> \<not> IsCollapsed w \<and> Recurse dirs fuel w rnd = Inr (None, w', rnd')"
  then show "\<exists>s w1 rnd1. CollapseRandomSlot w rnd = Inr (Some s, w1, rnd1) \<and> History w' = [s]"
    using Recurse_top_History by blast
next
  assume "History w \<noteq> [] \<and> Recurse dirs fuel w rnd = Inr (None, w', rnd')"
  then show "History w' = History w" using Recurse_narrowed_balanced(1) by blast
next
  assume "Recurse_loop dirs fuel p ds w rnd = Inr (None, w', rnd')"
  then show "History w' = History w" using Recurse_narrowed_balanced(2) by blast
next
  assume a: "0 < attempts \<and> Collapse dirs fuel attempts w rnd = Inr (None, w', rnd')"
  then obtain k where "nat attempts = Suc k" by (cases "nat attempts") auto
  with a have "run_attempts dirs fuel (Suc k) w rnd = Inr (None, w', rnd')"
    by (simp only: Collapse_run_attempts)
  then show "History w' = []" by (rule run_attempts_History)
qed

text \<open>The four cases on the two by two grid.\<close>

theorem History_balanced_witness:
  "(\<exists>w' rnd'. History ex_grid = [] \<and> \<not> IsCollapsed ex_grid \<and>
       Recurse four_directions 5 ex_grid [0, 0] = Inr (None, w', rnd') \<and>
       (\<exists>s w1 rnd1. CollapseRandomSlot ex_grid [0, 0] = Inr (Some s, w1, rnd1) \<and> History w' = [s])) \<and>
   (\<exists>w' rnd'. History ex_visiting \<noteq> [] \<and>
       Recurse four_directions 5 ex_visiting [] = Inr (None, w', rnd') \<and>
       History w' = History ex_visiting) \<and>
   (\<exists>w' rnd'. Recurse_loop four_directions 4 0 four_directions ex_visiting [] = Inr (None, w', rnd') \<and>
       History w' = History ex_visiting) \<and>
   (\<exists>w' rnd'. (0::int) < 1 \<and> Collapse four_directions 5 1 ex_grid [0, 0] = Inr (None, w', rnd') \<and>
       History w' = [])"
proof -
  have h: "History ex_grid = []" "\<not> IsCollapsed ex_grid" "History ex_visiting \<noteq> []"
    by (simp_all add: ex_grid_def ex_visiting_def IsCollapsed_def)
  have "observe (Recurse four_directions 5 ex_grid [0, 0]) = Inr (None, [[0], [0], [0], [0]], [0], [])"
    by code_simp
  then obtain w1 where r1: "Recurse four_directions 5 ex_grid [0, 0] = Inr (None, w1, [])"
    by (blast dest: observe_Inr)
  have "observe (Recurse four_directions 5 ex_visiting []) = Inr (None, [[0, 1], [0, 1], [0, 1], [0, 1]], [0], [])"
    by code_simp
  then obtain w2 where r2: "Recurse four_directions 5 ex_visiting [] = Inr (None, w2, [])"
    by (blast dest: observe_Inr)
  have "observe (Recurse_loop four_directions 4 0 four_directions ex_visiting [])
          = Inr (None, [[0, 1], [0, 1], [0, 1], [0, 1]], [0], [])"
    by code_simp
  then obtain w3 where r3: "Recurse_loop four_directions 4 0 four_directions ex_visiting [] = Inr (None, w3, [])"
    by (blast dest: observe_Inr)
  have "observe (Collapse four_directions 5 1 ex_grid [0, 0]) = Inr (None, [[0], [0], [0], [0]], [], [])"
    by code_simp
  then obtain w4 where r4: "Collapse four_directions 5 1 ex_grid [0, 0] = Inr (None, w4, [])"
    by (blast dest: observe_Inr)
  from History_balanced[of ex_grid four_directions 5 "[0, 0]" w1 "[]"] h r1
  have 1: "\<exists>s w' rnd1. CollapseRandomSlot ex_grid [0, 0] = Inr (Some s, w', rnd1) \<and> History w1 = [s]"
    by blast
  from History_balanced[of ex_visiting four_directions 5 "[]" w2 "[]"] h r2
  have 2: "History w2 = History ex_visiting" by blast
  from History_balanced[of ex_visiting four_directions 4 "[]" w3 "[]" 0 four_directions] r3
  have 3: "History w3 = History ex_visiting" by blast
  from History_balanced[of ex_grid four_directions 5 "[0, 0]" w4 "[]" _ _ 1] r4
  have 4: "History w4 = []" by simp
  have z: "(0::int) < 1" by simp
  from h r1 1 have a: "\<exists>w' rnd'. History ex_grid = [] \<and> \<not> IsCollapsed ex_grid \<and>
       Recurse four_directions 5 ex_grid [0, 0] = Inr (None, w', rnd') \<and>
       (\<exists>s w1 rnd1. CollapseRandomSlot ex_grid [0, 0] = Inr (Some s, w1, rnd1) \<and> History w' = [s])"
    by blast
  from h r2 2 have b: "\<exists>w' rnd'. History ex_visiting \<noteq> [] \<and>
       Recurse four_directions 5 ex_visiting [] = Inr (None, w', rnd') \<and>
       History w' = History ex_visiting"
    by blast
  from r3 3 have c: "\<exists>w' rnd'. Recurse_loop four_directions 4 0 four_directions ex_visiting [] = Inr (None, w', rnd') \<and>
       History w' = History ex_visiting"
    by blast
  from z r4 4 have d: "\<exists>w' rnd'. (0::int) < 1 \<and> Collapse four_directions 5 1 ex_grid [0, 0] = Inr (None, w', rnd') \<and>
       History w' = []"
    by blast
  from a b c d show ?thesis by (intro conjI)
qed

section \<open>Termination\<close>

text \<open>
  Claim C6. The recursion of \<open>Recurse\<close> is bounded by the number of slots: with more
  units of depth than the grid has slots a call never runs out of them, whatever the
  grid, the catalog, the history and the list of directions are. The only loop that
  is not bounded by the grid is the rejection loop of \<open>CollapseRandomSlot\<close>, which is
  entered only with an empty history and ends at the first draw that names a slot with
  more than one candidate (one more draw then chooses the module). Every recursive call
  is made for a slot of the grid that is not in the history, and pushing it makes the
  number of unvisited slots smaller.
\<close>

theorem Recurse_depth_bounded:
  "(length (PossibilitySpace w) < fuel \<longrightarrow> Recurse dirs fuel w rnd \<noteq> Inl OutOfFuel) \<and>
   (History w \<noteq> [] \<or>
      (\<exists>k. Suc k < length rnd \<and>
         1 < length (Superposition (PossibilitySpace w ! (rnd ! k mod length (PossibilitySpace w)))))
    \<longrightarrow> Recurse dirs fuel w rnd \<noteq> Inl OutOfDraws) \<and>
   (Recurse_visit w p d = Inr (Descend nxt w1) \<longrightarrow>
      nxt < length (PossibilitySpace w) \<and> \<not> HasVisited w nxt \<and>
      unvisited (w1\<lparr>History := History w1 @ [nxt]\<rparr>) < unvisited w)"
proof (intro conjI impI)
  assume "length (PossibilitySpace w) < fuel"
  with unvisited_le[of w] have "unvisited w < fuel" by simp
  with Recurse_fuel(1) show "Recurse dirs fuel w rnd \<noteq> Inl OutOfFuel" by blast
next
  assume "History w \<noteq> [] \<or>
      (\<exists>k. Suc k < length rnd \<and>
         1 < length (Superposition (PossibilitySpace w ! (rnd ! k mod length (PossibilitySpace w)))))"
  then show "Recurse dirs fuel w rnd \<noteq> Inl OutOfDraws" by (rule Recurse_not_OutOfDraws)
next
  assume v: "Recurse_visit w p d = Inr (Descend nxt w1)"
  from Recurse_visit_Descend[OF v] show "nxt < length (PossibilitySpace w)" by simp
  from Recurse_visit_Descend[OF v] show "\<not> HasVisited w nxt" by (simp add: HasVisited_iff)
  from Recurse_visit_Descend[OF v] have nx: "nxt < length (PossibilitySpace w)" "nxt \<notin> set (History w)"
    by simp_all
  from v have n1: "narrowed w w1" and h1: "History w1 = History w"
    by (auto dest: Recurse_visit_narrowed Recurse_visit_History)
  from n1 have l1: "length (PossibilitySpace w1) = length (PossibilitySpace w)"
    by (simp add: narrowed_def)
  have "Suc (unvisited (w1\<lparr>History := History w1 @ [nxt]\<rparr>)) = unvisited w1"
    by (rule unvisited_push) (simp_all add: l1 h1 nx)
  moreover have "unvisited w1 = unvisited w" by (rule unvisited_History_eq[OF l1 h1])
  ultimately show "unvisited (w1\<lparr>History := History w1 @ [nxt]\<rparr>) < unvisited w" by simp
qed

text \<open>The two by two grid: five units of depth and two draws are enough.\<close>

theorem Recurse_depth_bounded_witness:
  "length (PossibilitySpace ex_grid) < 5 \<and>
   Recurse four_directions 5 ex_grid [0, 0] \<noteq> Inl OutOfFuel \<and>
   (\<exists>k. Suc k < length [0::nat, 0] \<and>
      1 < length (Superposition (PossibilitySpace ex_grid ! ([0, 0] ! k mod length (PossibilitySpace ex_grid))))) \<and>
   Recurse four_directions 5 ex_grid [0, 0] \<noteq> Inl OutOfDraws \<and>
   (\<exists>w1. Recurse_visit ex_started 0 Down = Inr (Descend 2 w1) \<and>
      2 < length (PossibilitySpace ex_started) \<and> \<not> HasVisited ex_started 2 \<and>
      unvisited (w1\<lparr>History := History w1 @ [2]\<rparr>) < unvisited ex_started)"
proof -
  have l: "length (PossibilitySpace ex_grid) < 5" by (simp add: ex_grid_def)
  have d: "\<exists>k. Suc k < length [0::nat, 0] \<and>
      1 < length (Superposition (PossibilitySpace ex_grid ! ([0, 0] ! k mod length (PossibilitySpace ex_grid))))"
    by (rule exI[of _ 0]) (simp add: ex_grid_def)
  have "\<exists>w1. Recurse_visit ex_started 0 Down = Inr (Descend 2 w1)"
    by (simp add: ex_started_def ex_grid_def Recurse_visit_def deref_def GetSlot_def HasVisited_def
        GetPossibleModules_def same_tile_def Let_def)
  then obtain w1 where v: "Recurse_visit ex_started 0 Down = Inr (Descend 2 w1)" ..
  from Recurse_depth_bounded[of ex_grid 5 four_directions "[0, 0]"] l d
  have a: "Recurse four_directions 5 ex_grid [0, 0] \<noteq> Inl OutOfFuel"
    and b: "Recurse four_directions 5 ex_grid [0, 0] \<noteq> Inl OutOfDraws"
    by blast+
  from Recurse_depth_bounded[of ex_started _ _ _ 0 Down 2 w1] v
  have c: "2 < length (PossibilitySpace ex_started) \<and> \<not> HasVisited ex_started 2 \<and>
      unvisited (w1\<lparr>History := History w1 @ [2]\<rparr>) < unvisited ex_started"
    by blast
  from l a d b v c show ?thesis by blast
qed

section \<open>Repeated attempts\<close>

text \<open>
  Claim C5. \<open>Collapse(attempts)\<close> is the run of \<open>attempts\<close> attempts of the
  specification (none when \<open>attempts\<close> is not positive): each attempt is one call of
  \<open>Recurse\<close>; after an attempt that succeeds the history is reset to empty and the
  remaining attempts are run on the wave as that attempt left it; an attempt that
  returns an error (or stops) ends \<open>Collapse\<close> at once with the same error and the
  wave of the failed attempt.
\<close>

theorem Collapse_runs_attempts:
  "Collapse dirs fuel attempts w rnd = run_attempts dirs fuel (nat attempts) w rnd \<and>
   (attempts \<le> 0 \<longrightarrow> Collapse dirs fuel attempts w rnd = Inr (None, w, rnd)) \<and>
   (0 < attempts \<and> Recurse dirs fuel w rnd = Inr (Some err, w', rnd') \<longrightarrow>
      Collapse dirs fuel attempts w rnd = Inr (Some err, w', rnd')) \<and>
   (0 < attempts \<and> Recurse dirs fuel w rnd = Inl e \<longrightarrow>
      Collapse dirs fuel attempts w rnd = Inl e) \<and>
   (0 < attempts \<and> Recurse dirs fuel w rnd = Inr (None, w', rnd') \<longrightarrow>
      Collapse dirs fuel attempts w rnd =
        Collapse dirs fuel (attempts - 1) (w'\<lparr>History := []\<rparr>) rnd')"
proof -
  have pos: "nat attempts = Suc (nat (attempts - 1))" if "0 < attempts"
    using that by simp
  show ?thesis
    by (auto simp: Collapse_run_attempts dest: pos)
qed

theorem Collapse_runs_attempts_witness:
  "(0::int) \<le> 0 \<and> observe (Collapse four_directions 5 0 ex_grid [0, 0]) = observe (Inr (None, ex_grid, [0, 0])) \<and>
   (\<exists>w'. (0::int) < 2 \<and> Recurse four_directions 5 ex_clash [0, 0] = Inr (Some ErrNoSolution, w', []) \<and>
      Collapse four_directions 5 2 ex_clash [0, 0] = Inr (Some ErrNoSolution, w', [])) \<and>
   (0::int) < 2 \<and> Recurse four_directions 2 ex_grid [0, 0] = Inl OutOfFuel \<and>
      Collapse four_directions 2 2 ex_grid [0, 0] = Inl OutOfFuel \<and>
   (\<exists>w'. Recurse four_directions 5 ex_grid [0, 0] = Inr (None, w', []) \<and>
      Collapse four_directions 5 2 ex_grid [0, 0] =
        Collapse four_directions 5 (2 - 1) (w'\<lparr>History := []\<rparr>) [] \<and>
      observe (Collapse four_directions 5 2 ex_grid [0, 0]) = Inr (None, [[0], [0], [0], [0]], [], []))"
proof -
  have z: "(0::int) \<le> 0" "(0::int) < 2" by simp_all
  from Collapse_runs_attempts[of four_directions 5 0 ex_grid "[0, 0]"]
  have 1: "observe (Collapse four_directions 5 0 ex_grid [0, 0]) = observe (Inr (None, ex_grid, [0, 0]))"
    by simp
  have "observe (Recurse four_directions 5 ex_clash [0, 0])
          = Inr (Some ErrNoSolution, [[0], [0, 1], [], [0, 1]], [0], [])"
    by code_simp
  then obtain w2 where r2: "Recurse four_directions 5 ex_clash [0, 0] = Inr (Some ErrNoSolution, w2, [])"
    by (blast dest: observe_Inr)
  from Collapse_runs_attempts[of four_directions 5 2 ex_clash "[0, 0]" ErrNoSolution w2 "[]"] r2 z
  have 2: "Collapse four_directions 5 2 ex_clash [0, 0] = Inr (Some ErrNoSolution, w2, [])"
    by blast
  have "observe (Recurse four_directions 2 ex_grid [0, 0]) = Inl OutOfFuel"
    by code_simp
  then have r3: "Recurse four_directions 2 ex_grid [0, 0] = Inl OutOfFuel"
    by (auto simp: observe_def split: sum.splits)
  from Collapse_runs_attempts[of four_directions 2 2 ex_grid "[0, 0]" _ _ _ OutOfFuel] r3 z
  have 3: "Collapse four_directions 2 2 ex_grid [0, 0] = Inl OutOfFuel"
    by blast
  have "observe (Recurse four_directions 5 ex_grid [0, 0]) = Inr (None, [[0], [0], [0], [0]], [0], [])"
    by code_simp
  then obtain w4 where r4: "Recurse four_directions 5 ex_grid [0, 0] = Inr (None, w4, [])"
    by (blast dest: observe_Inr)
  from Collapse_runs_attempts[of four_directions 5 2 ex_grid "[0, 0]" _ w4 "[]"] r4 z
  have 4: "Collapse four_directions 5 2 ex_grid [0, 0] =
        Collapse four_directions 5 (2 - 1) (w4\<lparr>History := []\<rparr>) []"
    by blast
  have 5: "observe (Collapse four_directions 5 2 ex_grid [0, 0]) = Inr (None, [[0], [0], [0], [0]], [], [])"
    by code_simp
  from z 1 r2 2 r3 3 r4 4 5 show ?thesis by blast
qed

section \<open>Neighbours\<close>

text \<open>
  Claim C8. In a grid of width and height at least two, laid out as \<open>Initialize\<close>
  lays it out, \<open>HasNeighbor\<close> holds for exactly two directions at a corner slot, for
  exactly three at an edge slot that is no corner, and for exactly four at an interior
  slot; and whenever \<open>HasNeighbor(s, d)\<close> holds, \<open>GetNeighbor(s, d)\<close> returns a slot of
  the flat array whose coordinates are those of \<open>s\<close> moved one step in direction \<open>d\<close>.
\<close>

theorem neighbours_of_a_slot:
  assumes "grid_ok w" and "2 \<le> Width w" and "2 \<le> Height w"
    and "i < length (PossibilitySpace w)"
  shows "card {d. HasNeighbor w (PossibilitySpace w ! i) d} =
           (if on_border_x w (PossibilitySpace w ! i) \<and> on_border_y w (PossibilitySpace w ! i) then 2
            else if on_border_x w (PossibilitySpace w ! i) \<or> on_border_y w (PossibilitySpace w ! i) then 3
            else 4) \<and>
         (\<forall>d. HasNeighbor w (PossibilitySpace w ! i) d \<longrightarrow>
            (\<exists>j. GetNeighbor w (PossibilitySpace w ! i) d = Inr j \<and>
                 j < length (PossibilitySpace w) \<and>
                 (X (PossibilitySpace w ! j), Y (PossibilitySpace w ! j)) =
                   step d (X (PossibilitySpace w ! i), Y (PossibilitySpace w ! i))))"
proof -
  from assms(2) have W: "0 < Width w" by simp
  from neighbour_count[OF assms] grid_ok_GetNeighbor[OF assms(1) W assms(4)]
  show ?thesis by blast
qed

text \<open>The first slot of the two by two grid is a corner; below it lies the slot \<open>(0, 1)\<close>.\<close>

theorem neighbours_of_a_slot_witness:
  "grid_ok ex_grid \<and> 2 \<le> Width ex_grid \<and> 2 \<le> Height ex_grid \<and>
   0 < length (PossibilitySpace ex_grid) \<and>
   on_border_x ex_grid (PossibilitySpace ex_grid ! 0) \<and>
   on_border_y ex_grid (PossibilitySpace ex_grid ! 0) \<and>
   card {d. HasNeighbor ex_grid (PossibilitySpace ex_grid ! 0) d} = 2 \<and>
   HasNeighbor ex_grid (PossibilitySpace ex_grid ! 0) Down \<and>
   (\<exists>j. GetNeighbor ex_grid (PossibilitySpace ex_grid ! 0) Down = Inr j \<and>
        j < length (PossibilitySpace ex_grid) \<and>
        (X (PossibilitySpace ex_grid ! j), Y (PossibilitySpace ex_grid ! j)) = (0, 1))"
proof -
  have h: "2 \<le> Width ex_grid" "2 \<le> Height ex_grid" "0 < length (PossibilitySpace ex_grid)"
    "on_border_x ex_grid (PossibilitySpace ex_grid ! 0)"
    "on_border_y ex_grid (PossibilitySpace ex_grid ! 0)"
    "HasNeighbor ex_grid (PossibilitySpace ex_grid ! 0) Down"
    "step Down (X (PossibilitySpace ex_grid ! 0), Y (PossibilitySpace ex_grid ! 0)) = (0, 1)"
    by (simp_all add: ex_grid_def on_border_x_def on_border_y_def)
  from neighbours_of_a_slot[OF grid_ok_ex_grid h(1,2,3)] h(4,5)
  have n: "card {d. HasNeighbor ex_grid (PossibilitySpace ex_grid ! 0) d} = 2"
    and a: "\<forall>d. HasNeighbor ex_grid (PossibilitySpace ex_grid ! 0) d \<longrightarrow>
            (\<exists>j. GetNeighbor ex_grid (PossibilitySpace ex_grid ! 0) d = Inr j \<and>
                 j < length (PossibilitySpace ex_grid) \<and>
                 (X (PossibilitySpace ex_grid ! j), Y (PossibilitySpace ex_grid ! j)) =
                   step d (X (PossibilitySpace ex_grid ! 0), Y (PossibilitySpace ex_grid ! 0)))"
    by simp_all
  from a h(6) have "\<exists>j. GetNeighbor ex_grid (PossibilitySpace ex_grid ! 0) Down = Inr j \<and>
        j < length (PossibilitySpace ex_grid) \<and>
        (X (PossibilitySpace ex_grid ! j), Y (PossibilitySpace ex_grid ! j)) =
          step Down (X (PossibilitySpace ex_grid ! 0), Y (PossibilitySpace ex_grid ! 0))"
    by blast
  then have "\<exists>j. GetNeighbor ex_grid (PossibilitySpace ex_grid ! 0) Down = Inr j \<and>
        j < length (PossibilitySpace ex_grid) \<and>
        (X (PossibilitySpace ex_grid ! j), Y (PossibilitySpace ex_grid ! j)) = (0, 1)"
    by (simp only: h(7))
  with n h grid_ok_ex_grid show ?thesis by blast
qed

section \<open>Superpositions only shrink\<close>



section \<open>Export\<close>



end
